theory Spec2Isabelle
  imports Complex_Main "HOL-Library.Word"
begin

section \<open>Data model of \<open>voice_typing.py\<close>\<close>

text \<open>
  The keys that the keyboard listener reports, as the set of pressed keys tells them
  apart. The members of \<open>pynput\<close>'s enumeration \<open>Key\<close> that the source names are
  constructors of their own; every other member is \<open>Key_other\<close> with its name. A
  member is equal to itself only.

  A \<open>pynput\<close> key code has a virtual key code \<open>vk\<close>, a character \<open>char\<close> (either
  may be absent) and a flag \<open>is_dead\<close>. Python's set finds an element by its hash and
  then by \<open>==\<close>. The hash of a key code is the hash of its \<open>repr\<close>, which shows the
  character when there is one (in brackets for a dead key) and the virtual key code
  otherwise; \<open>==\<close> compares the characters and the flags when both key codes have a
  character and the virtual key codes otherwise. So two key codes are the same element
  of a set exactly when they carry the same character and the same flag, whatever their
  virtual key codes, or when neither carries a character and their virtual key codes
  agree. A key code is modelled by that identity: \<open>KeyCode_char\<close> with the character
  and the flag, or \<open>KeyCode_vk\<close>. Equality of the model's values is then the equality
  under which the set adds, discards and finds a key; the source reads nothing of a
  pressed key but its class and its character.
\<close>

datatype key =
    Key_ctrl_l | Key_ctrl_r | Key_alt_l | Key_alt_r
  | Key_shift_l | Key_shift_r | Key_cmd_l | Key_cmd_r
  | Key_space | Key_enter | Key_tab | Key_esc | Key_backspace | Key_delete
  | Key_up | Key_down | Key_left | Key_right | Key_home | Key_end
  | Key_page_up | Key_page_down | Key_insert
  | Key_f1 | Key_f2 | Key_f3 | Key_f4 | Key_f5 | Key_f6
  | Key_f7 | Key_f8 | Key_f9 | Key_f10 | Key_f11 | Key_f12
  | Key_other string
  | KeyCode_char string bool
  | KeyCode_vk "nat option"

text \<open>
  \<open>KeyCode(vk, char)\<close>, the key code that is not dead: the top-row and the numeric-pad
  digit, with different virtual key codes and the same character, are one value.
\<close>

fun KeyCode :: "nat option \<Rightarrow> string option \<Rightarrow> key" where
  "KeyCode vk (Some c) = KeyCode_char c False"
| "KeyCode vk None = KeyCode_vk vk"

text \<open>
  One block of audio is represented by its samples after the scaling to 16 bits of
  line 72 (\<open>(indata.flatten() * 32768).astype(np.int16)\<close>); the floating-point
  arithmetic of the scaling itself is outside the model. Times are the values that
  \<open>time.time()\<close> returns, taken as real numbers.
\<close>

type_synonym frame = "16 word list"

text \<open>
  The mutable fields of \<open>VoiceTypingAssistant\<close> together with the configuration
  that the modelled methods read. The attribute \<open>silence_start_time\<close> does not
  exist before the first \<open>start_recording\<close>; it is \<open>None\<close> there.
\<close>

record assistant =
  SILENCE_THRESHOLD :: int
  SILENCE_DURATION :: real
  hotkey_str :: string
  is_recording :: bool
  audio_frames :: "frame list"
  recording_start_time :: "real option"
  hotkey_pressed :: bool
  has_detected_speech :: bool
  should_transcribe :: bool
  silence_start_time :: "real option"
  pressed_keys :: "key set"

text \<open>\<open>__init__\<close>, with the empty key set that \<open>run\<close> creates before the listener starts.\<close>

definition init :: "string \<Rightarrow> int \<Rightarrow> real \<Rightarrow> assistant" where
  "init hotkey threshold duration =
     \<lparr> SILENCE_THRESHOLD = threshold, SILENCE_DURATION = duration, hotkey_str = hotkey,
       is_recording = False, audio_frames = [], recording_start_time = None,
       hotkey_pressed = False, has_detected_speech = False, should_transcribe = False,
       silence_start_time = None, pressed_keys = {} \<rparr>"

section \<open>Silence detection\<close>

text \<open>
  \<open>np.abs\<close> on an \<open>int16\<close> array stays in 16 bits: the negation wraps, so the
  absolute value of \<open>-32768\<close> is \<open>-32768\<close>.
\<close>

definition abs_int16 :: "16 word \<Rightarrow> 16 word" where
  "abs_int16 x = (if sint x < 0 then - x else x)"

text \<open>
  \<open>np.abs(audio_data).mean()\<close>: the mean is taken in double precision over the
  16-bit values; it is \<open>nan\<close> for an empty array, here \<open>None\<close>.
\<close>

definition mean_abs :: "frame \<Rightarrow> real option" where
  "mean_abs audio_data =
     (if audio_data = [] then None
      else Some (real_of_int (sum_list (map (\<lambda>x. sint (abs_int16 x)) audio_data))
                 / real (length audio_data)))"

text \<open>\<open>is_silent\<close> (lines 94-96); a comparison with \<open>nan\<close> is false.\<close>

definition is_silent :: "assistant \<Rightarrow> frame \<Rightarrow> bool" where
  "is_silent s audio_data =
     (case mean_abs audio_data of
        None \<Rightarrow> False
      | Some m \<Rightarrow> m < real_of_int (SILENCE_THRESHOLD s))"

text \<open>
  \<open>audio_callback\<close> (lines 65-92), called with the block and the clock value. In the
  \<open>elif\<close> the subtraction from an absent timestamp would raise and be caught by the
  handler, leaving the block appended and nothing else changed; that is the \<open>None\<close>
  case below.
\<close>

definition audio_callback :: "assistant \<Rightarrow> frame \<Rightarrow> real \<Rightarrow> assistant" where
  "audio_callback s indata now =
     (if is_recording s then
        let s1 = s\<lparr>audio_frames := audio_frames s @ [indata]\<rparr> in
        if is_silent s1 indata then
          if has_detected_speech s1 \<and> silence_start_time s1 = None then
            s1\<lparr>silence_start_time := Some now\<rparr>
          else if has_detected_speech s1 \<and>
                  (case silence_start_time s1 of
                     None \<Rightarrow> False
                   | Some t0 \<Rightarrow> now - t0 \<ge> SILENCE_DURATION s1) then
            s1\<lparr>should_transcribe := True, is_recording := False\<rparr>
          else s1
        else
          s1\<lparr>silence_start_time := None, has_detected_speech := True\<rparr>
      else s)"

text \<open>
  \<open>start_recording\<close> (lines 98-114): the state it sets before the stream is opened.
  The stream itself is outside the model; its blocks are the \<open>AudioBlock\<close> events below.
\<close>

definition start_recording :: "assistant \<Rightarrow> real \<Rightarrow> assistant" where
  "start_recording s now =
     s\<lparr>is_recording := True, audio_frames := [], recording_start_time := Some now,
       silence_start_time := None, has_detected_speech := False\<rparr>"

text \<open>\<open>stop_recording_and_transcribe\<close> (lines 116-122).\<close>

definition stop_recording_and_transcribe :: "assistant \<Rightarrow> assistant" where
  "stop_recording_and_transcribe s =
     (if \<not> is_recording s then s else s\<lparr>is_recording := False\<rparr>)"

text \<open>\<open>toggle_recording\<close> (lines 387-392).\<close>

definition toggle_recording :: "assistant \<Rightarrow> real \<Rightarrow> assistant" where
  "toggle_recording s now =
     (if \<not> is_recording s then start_recording s now
      else stop_recording_and_transcribe s)"

section \<open>Hotkey matching\<close>

text \<open>
  Strings are sequences of code points below 256. \<open>str.strip\<close> removes the
  characters for which \<open>str.isspace\<close> holds, \<open>str.lower\<close> maps the capital
  letters of that range to their small forms.
\<close>

definition isspace :: "char \<Rightarrow> bool" where
  "isspace c = (let n = (of_char c :: nat) in
     (9 \<le> n \<and> n \<le> 13) \<or> (28 \<le> n \<and> n \<le> 32) \<or> n = 133 \<or> n = 160)"

definition strip :: "string \<Rightarrow> string" where
  "strip t = rev (dropWhile isspace (rev (dropWhile isspace t)))"

text \<open>
  A capital letter of that range and its small form are 32 apart: they differ in the
  bit of value 32 only, which is clear in the capital.
\<close>

fun lower_char :: "char \<Rightarrow> char" where
  "lower_char (Char b0 b1 b2 b3 b4 b5 b6 b7) =
     (let n = (of_char (Char b0 b1 b2 b3 b4 b5 b6 b7) :: nat) in
      if (65 \<le> n \<and> n \<le> 90) \<or> (192 \<le> n \<and> n \<le> 222 \<and> n \<noteq> 215)
      then Char b0 b1 b2 b3 b4 True b6 b7
      else Char b0 b1 b2 b3 b4 b5 b6 b7)"

definition lower :: "string \<Rightarrow> string" where
  "lower t = map lower_char t"

text \<open>\<open>str.split('+')\<close>: the pieces between the plus signs, empty pieces included.\<close>

fun split_plus :: "string \<Rightarrow> string list" where
  "split_plus [] = [[]]"
| "split_plus (c # cs) =
     (if c = CHR ''+'' then [] # split_plus cs
      else (case split_plus cs of
              [] \<Rightarrow> [[c]]
            | w # ws \<Rightarrow> (c # w) # ws))"

text \<open>\<open>parse_hotkey\<close> (lines 297-302); the hotkey string never changes, so the cache is the value.\<close>

definition parse_hotkey :: "assistant \<Rightarrow> string list" where
  "parse_hotkey s = map (\<lambda>p. lower (strip p)) (split_plus (hotkey_str s))"

definition modifier_map :: "string \<rightharpoonup> key list" where
  "modifier_map = map_of
     [(''ctrl'', [Key_ctrl_l, Key_ctrl_r]),
      (''control'', [Key_ctrl_l, Key_ctrl_r]),
      (''alt'', [Key_alt_l, Key_alt_r]),
      (''shift'', [Key_shift_l, Key_shift_r]),
      (''shift_l'', [Key_shift_l]),
      (''shift_r'', [Key_shift_r]),
      (''ctrl_l'', [Key_ctrl_l]),
      (''ctrl_r'', [Key_ctrl_r]),
      (''alt_l'', [Key_alt_l]),
      (''alt_r'', [Key_alt_r]),
      (''cmd'', [Key_cmd_l, Key_cmd_r]),
      (''cmd_l'', [Key_cmd_l]),
      (''cmd_r'', [Key_cmd_r])]"

definition special_key_map :: "string \<rightharpoonup> key" where
  "special_key_map = map_of
     [(''space'', Key_space), (''enter'', Key_enter), (''tab'', Key_tab),
      (''esc'', Key_esc), (''escape'', Key_esc), (''backspace'', Key_backspace),
      (''delete'', Key_delete), (''up'', Key_up), (''down'', Key_down),
      (''left'', Key_left), (''right'', Key_right), (''home'', Key_home),
      (''end'', Key_end), (''page_up'', Key_page_up), (''page_down'', Key_page_down),
      (''insert'', Key_insert),
      (''f1'', Key_f1), (''f2'', Key_f2), (''f3'', Key_f3), (''f4'', Key_f4),
      (''f5'', Key_f5), (''f6'', Key_f6), (''f7'', Key_f7), (''f8'', Key_f8),
      (''f9'', Key_f9), (''f10'', Key_f10), (''f11'', Key_f11), (''f12'', Key_f12)]"

text \<open>The test of lines 373-377 on one pressed key: a key code whose character is the token.\<close>

fun carries_char :: "string \<Rightarrow> key \<Rightarrow> bool" where
  "carries_char part (KeyCode_char c dead) = (c = part)"
| "carries_char part _ = False"

definition unknown_key_warning :: "string \<Rightarrow> string \<Rightarrow> string" where
  "unknown_key_warning part hk =
     ''Warning: Unknown key '' @ [CHR 0x27] @ part @ [CHR 0x27] @
     '' in hotkey '' @ [CHR 0x27] @ hk @ [CHR 0x27]"

text \<open>
  The loop of \<open>is_hotkey_pressed\<close> (lines 358-385) over the remaining tokens. The
  result is the returned truth value and the lines printed on the way.
\<close>

fun hotkey_loop :: "string \<Rightarrow> key set \<Rightarrow> string list \<Rightarrow> bool \<times> string list" where
  "hotkey_loop hk pressed [] = (True, [])"
| "hotkey_loop hk pressed (part # rest) =
     (case modifier_map part of
        Some modifier_keys \<Rightarrow>
          if \<not> (\<exists>key \<in> set modifier_keys. key \<in> pressed) then (False, [])
          else hotkey_loop hk pressed rest
      | None \<Rightarrow>
         (case special_key_map part of
            Some k \<Rightarrow>
              if k \<notin> pressed then (False, [])
              else hotkey_loop hk pressed rest
          | None \<Rightarrow>
              if length part = 1 then
                (if \<not> (\<exists>key \<in> pressed. carries_char part key) then (False, [])
                 else hotkey_loop hk pressed rest)
              else (False, [unknown_key_warning part hk])))"

definition is_hotkey_pressed :: "assistant \<Rightarrow> bool \<times> string list" where
  "is_hotkey_pressed s = hotkey_loop (hotkey_str s) (pressed_keys s) (parse_hotkey s)"

section \<open>Key events\<close>

text \<open>
  \<open>on_press\<close> (lines 243-253): the new state and whether \<open>toggle_recording\<close> was
  called. The printed warnings of the matcher are dropped here. \<open>set.add\<close> is
  \<open>insert\<close> and \<open>set.discard\<close> below is the removal of the key, on the identities
  of the keys.
\<close>

definition on_press :: "assistant \<Rightarrow> key \<Rightarrow> real \<Rightarrow> assistant \<times> bool" where
  "on_press s key now =
     (let s1 = s\<lparr>pressed_keys := insert key (pressed_keys s)\<rparr> in
      if fst (is_hotkey_pressed s1) then
        if \<not> hotkey_pressed s1 then
          (toggle_recording (s1\<lparr>hotkey_pressed := True\<rparr>) now, True)
        else (s1, False)
      else (s1, False))"

text \<open>\<open>on_release\<close> (lines 255-262).\<close>

definition on_release :: "assistant \<Rightarrow> key \<Rightarrow> assistant" where
  "on_release s key =
     (let s1 = s\<lparr>pressed_keys := pressed_keys s - {key}\<rparr> in
      if key = Key_ctrl_l \<or> key = Key_ctrl_r then s1\<lparr>hotkey_pressed := False\<rparr>
      else s1)"

section \<open>The polling loop and the transcript\<close>

text \<open>
  One pass of the \<open>while\<close> loop of \<open>run\<close> (lines 274-290) after its sleep: the new
  state, and the buffer that \<open>transcribe_and_type\<close> is called on, if it is called.
  Stopping and closing the audio stream is taken to succeed.
\<close>

definition run_iteration :: "assistant \<Rightarrow> assistant \<times> frame list option" where
  "run_iteration s =
     (if should_transcribe s then
        let s1 = s\<lparr>should_transcribe := False\<rparr> in
        (s1, if audio_frames s1 \<noteq> [] then Some (audio_frames s1) else None)
      else (s, None))"

text \<open>The loop of lines 160-161, cutting the last character while it is one of \<open>.,;:\<close>.\<close>

function trim_loop :: "string \<Rightarrow> string" where
  "trim_loop text = (if text \<noteq> [] \<and> last text \<in> set ''.,;:'' then trim_loop (butlast text) else text)"
  by pat_completeness auto
termination
  by (relation "measure length") auto

declare trim_loop.simps [simp del]

text \<open>
  Lines 150-169 of \<open>transcribe_and_type\<close>: from the transcript that the service
  returned to the argument of \<open>type_text\<close>, \<open>None\<close> when \<open>type_text\<close> is not called.
\<close>

definition typed_text :: "string \<Rightarrow> string option" where
  "typed_text transcript =
     (let text = strip transcript;
          text = (if text \<noteq> [] then strip (trim_loop text) else text)
      in if text \<noteq> [] then Some text else None)"

section \<open>The three event sources together\<close>

datatype event = KeyPress key | KeyRelease key | AudioBlock frame | LoopIteration

datatype effect = ToggleRecording | TranscribeAndType "frame list"

text \<open>One callback or one pass of the loop, run to its end, at a clock value.\<close>

fun step :: "assistant \<Rightarrow> event \<times> real \<Rightarrow> assistant \<times> effect list" where
  "step s (KeyPress k, now) =
     (case on_press s k now of (s', fired) \<Rightarrow> (s', if fired then [ToggleRecording] else []))"
| "step s (KeyRelease k, now) = (on_release s k, [])"
| "step s (AudioBlock indata, now) = (audio_callback s indata now, [])"
| "step s (LoopIteration, now) =
     (case run_iteration s of
        (s', None) \<Rightarrow> (s', [])
      | (s', Some buf) \<Rightarrow> (s', [TranscribeAndType buf]))"

fun exec :: "assistant \<Rightarrow> (event \<times> real) list \<Rightarrow> assistant" where
  "exec s [] = s"
| "exec s (e # es) = exec (fst (step s e)) es"

fun effects :: "assistant \<Rightarrow> (event \<times> real) list \<Rightarrow> effect list" where
  "effects s [] = []"
| "effects s (e # es) = snd (step s e) @ effects (fst (step s e)) es"

text \<open>The audio thread alone: a run of blocks, each with the clock value of its callback.\<close>

fun feed :: "assistant \<Rightarrow> (frame \<times> real) list \<Rightarrow> assistant" where
  "feed s [] = s"
| "feed s ((indata, now) # rest) = feed (audio_callback s indata now) rest"

text \<open>The invariant of the silence tracker: a silence timestamp is there only after speech.\<close>

definition silence_invariant :: "assistant \<Rightarrow> bool" where
  "silence_invariant s = (silence_start_time s \<noteq> None \<longrightarrow> has_detected_speech s)"

text \<open>
  The mean absolute amplitude of a block as the specification words it: the mean of
  the absolute values of the samples, taken in the integers.
\<close>

definition mean_absolute_amplitude :: "frame \<Rightarrow> real" where
  "mean_absolute_amplitude audio_data =
     real_of_int (sum_list (map (\<lambda>x. \<bar>sint x\<bar>) audio_data)) / real (length audio_data)"

text \<open>
  Trailing-punctuation trimming as the specification words it: the text without its
  longest suffix made of the characters \<open>.,;:\<close>.
\<close>

definition rstrip_punct :: "string \<Rightarrow> string" where
  "rstrip_punct text = rev (dropWhile (\<lambda>c. c \<in> set ''.,;:'') (rev text))"

text \<open>
  The matcher as the specification words it. A token is valid when it is a modifier
  name, a special-key name or a single character. A key satisfies a modifier token
  when it is one of the token's side variants, a special-key token when it is that
  key, a single-character token when it is a key code carrying that character. A
  token holds in a set of pressed keys when some key of the set satisfies it.
\<close>

definition valid_token :: "string \<Rightarrow> bool" where
  "valid_token part =
     (modifier_map part \<noteq> None \<or> special_key_map part \<noteq> None \<or> length part = 1)"

definition key_satisfies :: "string \<Rightarrow> key \<Rightarrow> bool" where
  "key_satisfies part k =
     (case modifier_map part of
        Some variants \<Rightarrow> k \<in> set variants
      | None \<Rightarrow>
         (case special_key_map part of
            Some named \<Rightarrow> k = named
          | None \<Rightarrow> length part = 1 \<and> carries_char part k))"

definition token_holds :: "key set \<Rightarrow> string \<Rightarrow> bool" where
  "token_holds pressed part = (\<exists>k \<in> pressed. key_satisfies part k)"

section \<open>The recording session\<close>

lemma is_silent_update [simp]:
  "is_silent (s\<lparr>audio_frames := fs\<rparr>) f = is_silent s f"
  "is_silent (s\<lparr>silence_start_time := st\<rparr>) f = is_silent s f"
  "is_silent (s\<lparr>has_detected_speech := b\<rparr>) f = is_silent s f"
  "is_silent (s\<lparr>is_recording := b\<rparr>) f = is_silent s f"
  "is_silent (s\<lparr>should_transcribe := b\<rparr>) f = is_silent s f"
  "is_silent (s\<lparr>recording_start_time := rt\<rparr>) f = is_silent s f"
  by (simp_all add: is_silent_def split: option.splits)

lemma feed_append: "feed s (xs @ ys) = feed (feed s xs) ys"
  by (induction xs arbitrary: s) auto

lemma audio_callback_still_recording:
  "is_recording (audio_callback s f t) \<Longrightarrow>
     is_recording s \<and> should_transcribe (audio_callback s f t) = should_transcribe s"
  by (auto simp: audio_callback_def Let_def split: if_splits)

lemma feed_still_recording:
  "is_recording (feed s xs) \<Longrightarrow>
     is_recording s \<and> should_transcribe (feed s xs) = should_transcribe s"
proof (induction xs arbitrary: s)
  case Nil
  then show ?case by simp
next
  case (Cons x xs)
  obtain f t where x: "x = (f, t)" by (cases x)
  from Cons.prems have r: "is_recording (feed (audio_callback s f t) xs)" by (simp add: x)
  from Cons.IH [OF r] audio_callback_still_recording [of s f t]
  show ?case by (simp add: x)
qed

lemma feed_prefix_recording:
  assumes "is_recording (feed s xs)" "n \<le> length xs"
  shows "is_recording (feed s (take n xs))
         \<and> should_transcribe (feed s (take n xs)) = should_transcribe s"
proof -
  have parts: "feed s xs = feed (feed s (take n xs)) (drop n xs)"
    by (simp add: feed_append [symmetric])
  have "is_recording (feed s (take n xs))"
    using assms(1) feed_still_recording [of "feed s (take n xs)" "drop n xs"] parts by simp
  then show ?thesis using feed_still_recording [of s "take n xs"] by simp
qed

lemma audio_callback_invariant:
  "silence_invariant s \<Longrightarrow> silence_invariant (audio_callback s f t)"
  by (auto simp: silence_invariant_def audio_callback_def Let_def)

lemma start_recording_invariant: "silence_invariant (start_recording s now)"
  by (simp add: silence_invariant_def start_recording_def)

lemma step_invariant: "silence_invariant s \<Longrightarrow> silence_invariant (fst (step s e))"
proof (cases e)
  case (Pair ev t)
  assume inv: "silence_invariant s"
  show ?thesis
  proof (cases ev)
    case (KeyPress k)
    then show ?thesis using inv Pair
      by (auto simp: on_press_def Let_def toggle_recording_def start_recording_def
           stop_recording_and_transcribe_def silence_invariant_def split: if_splits)
  next
    case (KeyRelease k)
    then show ?thesis using inv Pair
      by (auto simp: on_release_def Let_def silence_invariant_def)
  next
    case (AudioBlock f)
    then show ?thesis using inv Pair by (simp add: audio_callback_invariant)
  next
    case LoopIteration
    then show ?thesis using inv Pair
      by (auto simp: run_iteration_def Let_def silence_invariant_def split: option.splits)
  qed
qed

lemma exec_invariant: "silence_invariant s \<Longrightarrow> silence_invariant (exec s evs)"
  by (induction evs arbitrary: s) (auto simp: step_invariant)

lemma init_invariant: "silence_invariant (init hk thr dur)"
  by (simp add: silence_invariant_def init_def)

lemma feed_all_silent:
  "is_recording s \<Longrightarrow> \<not> has_detected_speech s \<Longrightarrow> \<forall>(f, t) \<in> set blocks. is_silent s f \<Longrightarrow>
     feed s blocks = s\<lparr>audio_frames := audio_frames s @ map fst blocks\<rparr>"
proof (induction blocks arbitrary: s)
  case Nil
  then show ?case by simp
next
  case (Cons b blocks)
  obtain f t where b: "b = (f, t)" by (cases b)
  let ?s1 = "s\<lparr>audio_frames := audio_frames s @ [f]\<rparr>"
  have sil: "is_silent ?s1 f" using Cons.prems(3) b by simp
  have cb: "audio_callback s f t = ?s1"
    using Cons.prems(1,2) sil by (simp add: audio_callback_def Let_def)
  have "\<forall>(f, t) \<in> set blocks. is_silent ?s1 f"
    using Cons.prems(3) by auto
  then have "feed ?s1 blocks = ?s1\<lparr>audio_frames := audio_frames ?s1 @ map fst blocks\<rparr>"
    using Cons.IH [of ?s1] Cons.prems(1,2) by simp
  then show ?case by (simp add: b cb)
qed

text \<open>
  \<^bold>\<open>C8.\<close> A block that arrives while the session is not recording (idle, or stopped and
  waiting for the loop) changes nothing: the state after \<open>audio_callback\<close> is the state
  before it, in every field (buffer, silence timestamp, speech flag, transcription flag).
\<close>

theorem audio_callback_ignored_unless_recording:
  "\<not> is_recording s \<Longrightarrow> audio_callback s indata now = s"
  by (simp add: audio_callback_def)

theorem audio_callback_ignored_unless_recording_witness:
  "\<not> is_recording ((init ''ctrl+alt+0'' 500 1)\<lparr>should_transcribe := True, audio_frames := [[900]]\<rparr>)
   \<and> audio_callback ((init ''ctrl+alt+0'' 500 1)\<lparr>should_transcribe := True, audio_frames := [[900]]\<rparr>)
        [1000, 1200] 7
       = (init ''ctrl+alt+0'' 500 1)\<lparr>should_transcribe := True, audio_frames := [[900]]\<rparr>"
  using audio_callback_ignored_unless_recording
    [of "(init ''ctrl+alt+0'' 500 1)\<lparr>should_transcribe := True, audio_frames := [[900]]\<rparr>"
        "[1000, 1200]" 7]
  by (simp add: init_def)

text \<open>
  \<^bold>\<open>C3.\<close> The silence timestamp is set only when speech has been detected: this holds
  after \<open>start_recording\<close> from any state (it resets both fields), it is kept by every
  audio block, and so it holds in every state that the three event sources can reach
  from the initial one. A session whose blocks are all silent never stops by itself:
  after any number of silent blocks it is still recording, the transcription flag is
  what it was, no speech is recorded as detected and no silence timestamp is set.
\<close>

theorem silence_countdown_requires_speech:
  "silence_invariant (start_recording s now)
   \<and> (silence_invariant s \<longrightarrow> silence_invariant (audio_callback s indata t))
   \<and> silence_invariant (exec (init hk thr dur) evs)
   \<and> ((\<forall>(f, t) \<in> set blocks. is_silent s f) \<longrightarrow>
        is_recording (feed (start_recording s now) blocks)
        \<and> should_transcribe (feed (start_recording s now) blocks) = should_transcribe s
        \<and> \<not> has_detected_speech (feed (start_recording s now) blocks)
        \<and> silence_start_time (feed (start_recording s now) blocks) = None)"
proof (intro conjI impI)
  show "silence_invariant (start_recording s now)" by (rule start_recording_invariant)
next
  assume "silence_invariant s"
  then show "silence_invariant (audio_callback s indata t)" by (rule audio_callback_invariant)
next
  show "silence_invariant (exec (init hk thr dur) evs)"
    by (rule exec_invariant [OF init_invariant])
next
  assume sil: "\<forall>(f, t) \<in> set blocks. is_silent s f"
  let ?s0 = "start_recording s now"
  have rec: "is_recording ?s0" and nsp: "\<not> has_detected_speech ?s0"
    by (simp_all add: start_recording_def)
  have "\<forall>(f, t) \<in> set blocks. is_silent ?s0 f"
    using sil by (auto simp: start_recording_def)
  from feed_all_silent [OF rec nsp this]
  have eq: "feed ?s0 blocks = ?s0\<lparr>audio_frames := audio_frames ?s0 @ map fst blocks\<rparr>" .
  show "is_recording (feed ?s0 blocks)" by (subst eq) (simp add: start_recording_def)
  show "should_transcribe (feed ?s0 blocks) = should_transcribe s"
    by (subst eq) (simp add: start_recording_def)
  show "\<not> has_detected_speech (feed ?s0 blocks)" by (subst eq) (simp add: start_recording_def)
  show "silence_start_time (feed ?s0 blocks) = None" by (subst eq) (simp add: start_recording_def)
qed

theorem silence_countdown_requires_speech_witness:
  "silence_invariant ((init ''ctrl+alt+0'' 500 1)
      \<lparr>is_recording := True, has_detected_speech := True, silence_start_time := Some 3\<rparr>)
   \<and> silence_invariant (audio_callback ((init ''ctrl+alt+0'' 500 1)
      \<lparr>is_recording := True, has_detected_speech := True, silence_start_time := Some 3\<rparr>) [200, - 200] 4)
   \<and> is_silent ((init ''ctrl+alt+0'' 500 1)
      \<lparr>is_recording := True, has_detected_speech := True, silence_start_time := Some 3\<rparr>) [200, - 200]
   \<and> is_silent ((init ''ctrl+alt+0'' 500 1)
      \<lparr>is_recording := True, has_detected_speech := True, silence_start_time := Some 3\<rparr>) [0, 499]
   \<and> is_silent ((init ''ctrl+alt+0'' 500 1)
      \<lparr>is_recording := True, has_detected_speech := True, silence_start_time := Some 3\<rparr>) [- 300]
   \<and> is_recording (feed (start_recording ((init ''ctrl+alt+0'' 500 1)
      \<lparr>is_recording := True, has_detected_speech := True, silence_start_time := Some 3\<rparr>) 0)
         [([200, - 200], 1), ([0, 499], 2), ([- 300], 9)])
   \<and> \<not> should_transcribe (feed (start_recording ((init ''ctrl+alt+0'' 500 1)
      \<lparr>is_recording := True, has_detected_speech := True, silence_start_time := Some 3\<rparr>) 0)
         [([200, - 200], 1), ([0, 499], 2), ([- 300], 9)])"
  using silence_countdown_requires_speech
    [of "(init ''ctrl+alt+0'' 500 1)
      \<lparr>is_recording := True, has_detected_speech := True, silence_start_time := Some 3\<rparr>" 0
        "[200, - 200]" 4 "''ctrl+alt+0''" 500 1 "[]"
        "[([200, - 200], 1), ([0, 499], 2), ([- 300], 9)]"]
  by (simp add: init_def silence_invariant_def is_silent_def mean_abs_def abs_int16_def)

lemma feed_all_speech:
  "is_recording s \<Longrightarrow> blocks \<noteq> [] \<Longrightarrow> \<forall>(f, t) \<in> set blocks. \<not> is_silent s f \<Longrightarrow>
     feed s blocks = s\<lparr>audio_frames := audio_frames s @ map fst blocks,
                        silence_start_time := None, has_detected_speech := True\<rparr>"
proof (induction blocks arbitrary: s)
  case Nil
  then show ?case by simp
next
  case (Cons b blocks)
  obtain f t where b: "b = (f, t)" by (cases b)
  let ?s1 = "s\<lparr>audio_frames := audio_frames s @ [f], silence_start_time := None,
                 has_detected_speech := True\<rparr>"
  have nsil: "\<not> is_silent (s\<lparr>audio_frames := audio_frames s @ [f]\<rparr>) f"
    using Cons.prems(3) b by simp
  have cb: "audio_callback s f t = ?s1"
    using Cons.prems(1) nsil by (simp add: audio_callback_def Let_def)
  show ?case
  proof (cases "blocks = []")
    case True
    then show ?thesis by (simp add: b cb)
  next
    case False
    have "\<forall>(f, t) \<in> set blocks. \<not> is_silent ?s1 f"
      using Cons.prems(3) by auto
    then have "feed ?s1 blocks = ?s1\<lparr>audio_frames := audio_frames ?s1 @ map fst blocks,
                        silence_start_time := None, has_detected_speech := True\<rparr>"
      using Cons.IH [of ?s1] Cons.prems(1) False by simp
    then show ?thesis by (simp add: b cb)
  qed
qed

lemma feed_counting:
  "is_recording s \<Longrightarrow> has_detected_speech s \<Longrightarrow> silence_start_time s = Some t1 \<Longrightarrow>
   \<forall>(f, t) \<in> set blocks. is_silent s f \<and> t - t1 < SILENCE_DURATION s \<Longrightarrow>
     feed s blocks = s\<lparr>audio_frames := audio_frames s @ map fst blocks\<rparr>"
proof (induction blocks arbitrary: s)
  case Nil
  then show ?case by simp
next
  case (Cons b blocks)
  obtain f t where b: "b = (f, t)" by (cases b)
  let ?s1 = "s\<lparr>audio_frames := audio_frames s @ [f]\<rparr>"
  have sil: "is_silent ?s1 f" and early: "t - t1 < SILENCE_DURATION s"
    using Cons.prems(4) b by simp_all
  have cb: "audio_callback s f t = ?s1"
    using Cons.prems(1,2,3) sil early by (simp add: audio_callback_def Let_def)
  have "\<forall>(f, t) \<in> set blocks. is_silent ?s1 f \<and> t - t1 < SILENCE_DURATION ?s1"
    using Cons.prems(4) by auto
  then have "feed ?s1 blocks = ?s1\<lparr>audio_frames := audio_frames ?s1 @ map fst blocks\<rparr>"
    using Cons.IH [of ?s1] Cons.prems(1,2,3) by simp
  then show ?case by (simp add: b cb)
qed

lemma feed_until_threshold:
  assumes pre: "\<forall>(f, t) \<in> set pre. is_silent s f"
    and speech: "speech \<noteq> []" "\<forall>(f, t) \<in> set speech. \<not> is_silent s f"
    and first: "is_silent s f1"
    and mid: "\<forall>(f, t) \<in> set mid. is_silent s f \<and> t - t1 < SILENCE_DURATION s"
  shows "feed (start_recording s now) (pre @ speech @ (f1, t1) # mid) =
           s\<lparr>is_recording := True, recording_start_time := Some now,
             audio_frames := map fst (pre @ speech @ (f1, t1) # mid),
             silence_start_time := Some t1, has_detected_speech := True\<rparr>"
proof -
  let ?s0 = "start_recording s now"
  let ?A = "?s0\<lparr>audio_frames := audio_frames ?s0 @ map fst pre\<rparr>"
  let ?B = "?A\<lparr>audio_frames := audio_frames ?A @ map fst speech,
                 silence_start_time := None, has_detected_speech := True\<rparr>"
  let ?C = "?B\<lparr>audio_frames := audio_frames ?B @ [f1], silence_start_time := Some t1\<rparr>"
  let ?D = "?C\<lparr>audio_frames := audio_frames ?C @ map fst mid\<rparr>"
  have a: "feed ?s0 pre = ?A"
    using pre by (intro feed_all_silent) (auto simp: start_recording_def)
  have b: "feed ?A speech = ?B"
    using speech by (intro feed_all_speech) (auto simp: start_recording_def)
  have c: "audio_callback ?B f1 t1 = ?C"
    using first by (simp add: audio_callback_def Let_def start_recording_def)
  have d: "feed ?C mid = ?D"
    using mid by (intro feed_counting) (auto simp: start_recording_def)
  have "feed ?s0 (pre @ speech @ (f1, t1) # mid) = ?D"
    by (simp only: feed_append feed.simps a b c d)
  then show ?thesis by (simp add: start_recording_def)
qed

text \<open>
  \<^bold>\<open>C4\<close> (amended). The countdown is measured between callbacks: it starts at the clock
  value \<open>t1\<close> of the first silent block after speech, and that block itself never stops
  the session. After any silent blocks \<open>pre\<close>, at least one block of speech, the silent
  block at \<open>t1\<close> and further silent blocks \<open>mid\<close> that each come less than the silence
  duration after \<open>t1\<close>, the session is still recording at every block so far and the
  transcription flag is untouched; the next silent block, at a time \<open>tk\<close> with
  \<open>tk - t1\<close> at least the silence duration, stops it: recording ends, the
  transcription flag is set and the buffer holds every block, that one included. A block
  of speech clears the silence timestamp.
\<close>

theorem silence_timeout_transition:
  assumes pre: "\<forall>(f, t) \<in> set pre. is_silent s f"
    and speech: "speech \<noteq> []" "\<forall>(f, t) \<in> set speech. \<not> is_silent s f"
    and first: "is_silent s f1"
    and mid: "\<forall>(f, t) \<in> set mid. is_silent s f \<and> t - t1 < SILENCE_DURATION s"
    and last: "is_silent s fk" "tk - t1 \<ge> SILENCE_DURATION s"
  shows "(\<forall>n \<le> length (pre @ speech @ (f1, t1) # mid).
            is_recording (feed (start_recording s now) (take n (pre @ speech @ (f1, t1) # mid)))
            \<and> should_transcribe (feed (start_recording s now) (take n (pre @ speech @ (f1, t1) # mid)))
                = should_transcribe s)
       \<and> \<not> is_recording (feed (start_recording s now) (pre @ speech @ (f1, t1) # mid @ [(fk, tk)]))
       \<and> should_transcribe (feed (start_recording s now) (pre @ speech @ (f1, t1) # mid @ [(fk, tk)]))
       \<and> audio_frames (feed (start_recording s now) (pre @ speech @ (f1, t1) # mid @ [(fk, tk)]))
           = map fst (pre @ speech @ (f1, t1) # mid @ [(fk, tk)])
       \<and> (is_recording s' \<and> \<not> is_silent s' f \<longrightarrow> silence_start_time (audio_callback s' f t) = None)"
proof (intro conjI allI impI)
  let ?s0 = "start_recording s now"
  let ?xs = "pre @ speech @ (f1, t1) # mid"
  let ?D = "s\<lparr>is_recording := True, recording_start_time := Some now,
             audio_frames := map fst ?xs,
             silence_start_time := Some t1, has_detected_speech := True\<rparr>"
  have d: "feed ?s0 ?xs = ?D"
    by (rule feed_until_threshold [OF pre speech first mid])
  have rec: "is_recording (feed ?s0 ?xs)" by (subst d) simp
  have st: "should_transcribe ?s0 = should_transcribe s" by (simp add: start_recording_def)
  { fix n assume n: "n \<le> length ?xs"
    from feed_prefix_recording [OF rec n] st
    show "is_recording (feed ?s0 (take n ?xs))"
      and "should_transcribe (feed ?s0 (take n ?xs)) = should_transcribe s" by simp_all }
  have whole: "pre @ speech @ (f1, t1) # mid @ [(fk, tk)] = ?xs @ [(fk, tk)]" by simp
  have "feed ?s0 (?xs @ [(fk, tk)]) = feed (feed ?s0 ?xs) [(fk, tk)]"
    by (rule feed_append)
  also have "\<dots> = feed ?D [(fk, tk)]" by (simp only: d)
  also have "\<dots> = audio_callback ?D fk tk" by simp
  finally have e: "feed ?s0 (?xs @ [(fk, tk)]) = audio_callback ?D fk tk" .
  have f: "audio_callback ?D fk tk =
        ?D\<lparr>audio_frames := map fst ?xs @ [fk], should_transcribe := True, is_recording := False\<rparr>"
    using last by (simp add: audio_callback_def Let_def)
  show "\<not> is_recording (feed ?s0 (pre @ speech @ (f1, t1) # mid @ [(fk, tk)]))"
    by (simp only: whole e f) simp
  show "should_transcribe (feed ?s0 (pre @ speech @ (f1, t1) # mid @ [(fk, tk)]))"
    by (simp only: whole e f) simp
  show "audio_frames (feed ?s0 (pre @ speech @ (f1, t1) # mid @ [(fk, tk)]))
           = map fst (pre @ speech @ (f1, t1) # mid @ [(fk, tk)])"
    by (simp only: whole e f) simp
next
  assume "is_recording s' \<and> \<not> is_silent s' f"
  then show "silence_start_time (audio_callback s' f t) = None"
    by (simp add: audio_callback_def Let_def)
qed

theorem silence_timeout_transition_witness:
  "is_silent (init ''ctrl+alt+0'' 500 2) [0, 100]
   \<and> \<not> is_silent (init ''ctrl+alt+0'' 500 2) [1000, - 1000]
   \<and> is_silent (init ''ctrl+alt+0'' 500 2) [- 10, 10]
   \<and> (3::real) - 2 < SILENCE_DURATION (init ''ctrl+alt+0'' 500 2)
   \<and> (4::real) - 2 \<ge> SILENCE_DURATION (init ''ctrl+alt+0'' 500 2)
   \<and> is_recording (feed (start_recording (init ''ctrl+alt+0'' 500 2) 0)
        (take 4 ([([0, 100], 0)] @ [([1000, - 1000], 1)] @ ([- 10, 10], 2) # [([0, 100], 3)])))
   \<and> \<not> is_recording (feed (start_recording (init ''ctrl+alt+0'' 500 2) 0)
        ([([0, 100], 0)] @ [([1000, - 1000], 1)] @ ([- 10, 10], 2) # [([0, 100], 3)] @ [([0, 100], 4)]))
   \<and> should_transcribe (feed (start_recording (init ''ctrl+alt+0'' 500 2) 0)
        ([([0, 100], 0)] @ [([1000, - 1000], 1)] @ ([- 10, 10], 2) # [([0, 100], 3)] @ [([0, 100], 4)]))"
proof -
  let ?s = "init ''ctrl+alt+0'' 500 2"
  let ?xs = "[([0, 100], 0)] @ [([1000, - 1000], 1)] @ ([- 10, 10], 2) # [([0, 100] :: frame, 3 :: real)]"
  have sil: "is_silent ?s [0, 100]" "is_silent ?s [- 10, 10]"
    and nsil: "\<not> is_silent ?s [1000, - 1000]"
    by (simp_all add: init_def is_silent_def mean_abs_def abs_int16_def)
  have dur: "(3::real) - 2 < SILENCE_DURATION ?s" "(4::real) - 2 \<ge> SILENCE_DURATION ?s"
    by (simp_all add: init_def)
  have p1: "\<forall>(f, t) \<in> set [([0, 100], 0::real)]. is_silent ?s f" using sil by simp
  have p2: "[([1000, - 1000], 1::real)] \<noteq> []" by simp
  have p3: "\<forall>(f, t) \<in> set [([1000, - 1000], 1::real)]. \<not> is_silent ?s f" using nsil by simp
  have p5: "\<forall>(f, t) \<in> set [([0, 100], 3::real)]. is_silent ?s f \<and> t - 2 < SILENCE_DURATION ?s"
    using sil dur by simp
  note th = silence_timeout_transition [OF p1 p2 p3 sil(2) p5 sil(1) dur(2), of 0 ?s "[]" 0]
  from th have a: "\<forall>n \<le> length ?xs. is_recording (feed (start_recording ?s 0) (take n ?xs))
      \<and> should_transcribe (feed (start_recording ?s 0) (take n ?xs)) = should_transcribe ?s"
    by (rule conjunct1)
  from a have "4 \<le> length ?xs \<longrightarrow> is_recording (feed (start_recording ?s 0) (take 4 ?xs))
      \<and> should_transcribe (feed (start_recording ?s 0) (take 4 ?xs)) = should_transcribe ?s"
    by (rule spec)
  then have r4: "is_recording (feed (start_recording ?s 0) (take 4 ?xs))" by simp
  from th have b: "\<not> is_recording (feed (start_recording ?s 0) (?xs @ [([0, 100], 4)]))"
    and c: "should_transcribe (feed (start_recording ?s 0) (?xs @ [([0, 100], 4)]))"
    by simp_all
  show ?thesis
    using sil nsil dur r4 b c by simp
qed

text \<open>
  The claim as stated fails: one silent block, one block of speech and two silent
  blocks one second apart, with a silence duration of two seconds. The trailing silence
  lasts two blocks of one second, which is the configured duration, yet the second
  silent block comes only one second after the first one started the countdown, and
  the session is still recording after it.
\<close>

theorem silence_timeout_counterexample:
  "is_silent (init ''ctrl+alt+0'' 500 2) [0, 100]
   \<and> \<not> is_silent (init ''ctrl+alt+0'' 500 2) [1000, - 1000]
   \<and> (2::real) * 1 \<ge> SILENCE_DURATION (init ''ctrl+alt+0'' 500 2)
   \<and> is_recording (feed (start_recording (init ''ctrl+alt+0'' 500 2) 0)
        [([0, 100], 1), ([1000, - 1000], 2), ([0, 100], 3), ([0, 100], 4)])
   \<and> \<not> should_transcribe (feed (start_recording (init ''ctrl+alt+0'' 500 2) 0)
        [([0, 100], 1), ([1000, - 1000], 2), ([0, 100], 3), ([0, 100], 4)])"
  by (simp add: init_def is_silent_def mean_abs_def abs_int16_def start_recording_def
        audio_callback_def Let_def)

section \<open>Silence classification\<close>

lemma sint_neg16:
  fixes x :: "16 word"
  assumes "x \<noteq> - 32768"
  shows "sint (- x) = - sint x"
proof -
  have "sint x \<noteq> sint (- 32768 :: 16 word)"
    using assms word_eq_iff_signed [where ?'a = int, of x "- 32768"] by simp
  then have ne: "sint x \<noteq> - 32768" by simp
  have lo: "- 32768 \<le> sint x" using sint_ge [of x] by simp
  have hi: "sint x < 32768" using sint_lt [of x] by simp
  have "sint (- x) = signed_take_bit 15 (- sint x)"
    using sint_word_minus [of x] by simp
  also have "\<dots> = - sint x"
    using ne lo hi by (intro signed_take_bit_int_eq_self) simp_all
  finally show ?thesis .
qed

lemma sint_abs_int16: "x \<noteq> - 32768 \<Longrightarrow> sint (abs_int16 x) = \<bar>sint x\<bar>"
  by (simp add: abs_int16_def sint_neg16)

lemma mean_abs_in_range:
  assumes "audio_data \<noteq> []" "\<forall>x \<in> set audio_data. x \<noteq> - 32768"
  shows "mean_abs audio_data = Some (mean_absolute_amplitude audio_data)"
proof -
  have eq: "map (\<lambda>x. sint (abs_int16 x)) audio_data = map (\<lambda>x. \<bar>sint x\<bar>) audio_data"
    using assms(2) by (simp add: sint_abs_int16)
  show ?thesis
    unfolding mean_abs_def mean_absolute_amplitude_def eq using assms(1) by simp
qed

lemma is_silent_strict:
  assumes "audio_data \<noteq> []" "\<forall>x \<in> set audio_data. x \<noteq> - 32768"
  shows "is_silent s audio_data
           = (mean_absolute_amplitude audio_data < real_of_int (SILENCE_THRESHOLD s))"
  by (simp add: is_silent_def mean_abs_in_range [OF assms])

text \<open>
  \<^bold>\<open>C10.\<close> The comparison with the threshold is strict, and on blocks without the sample
  \<open>-32768\<close> the classification is the one the claim states (\<open>is_silent_strict\<close>).
  With that sample the 16-bit absolute value wraps: a block that alternates between the
  two extreme values has a mean absolute amplitude of 32767.5, far above the threshold
  of 500, and is classified as silent.
\<close>

theorem is_silent_clipped_block:
  "is_silent (init ''ctrl+alt+0'' 500 1) [- 32768, 32767, - 32768, 32767]
   \<and> mean_absolute_amplitude [- 32768, 32767, - 32768, 32767] = 65535 / 2
   \<and> \<not> mean_absolute_amplitude [- 32768, 32767, - 32768, 32767]
         < real_of_int (SILENCE_THRESHOLD (init ''ctrl+alt+0'' 500 1))"
  by (simp add: init_def is_silent_def mean_abs_def abs_int16_def mean_absolute_amplitude_def)

section \<open>Manual stop\<close>

lemmas eval_defs = init_def is_hotkey_pressed_def parse_hotkey_def strip_def lower_def isspace_def
  modifier_map_def special_key_map_def on_press_def on_release_def toggle_recording_def
  start_recording_def stop_recording_and_transcribe_def run_iteration_def audio_callback_def
  is_silent_def mean_abs_def abs_int16_def Let_def

lemma quiet_run_no_effects:
  "\<not> is_recording s \<Longrightarrow> \<not> should_transcribe s \<Longrightarrow>
   \<forall>(e, t) \<in> set evs. e = LoopIteration \<or> (\<exists>f. e = AudioBlock f) \<or> (\<exists>k. e = KeyRelease k) \<Longrightarrow>
     effects s evs = [] \<and> audio_frames (exec s evs) = audio_frames s
     \<and> \<not> is_recording (exec s evs) \<and> \<not> should_transcribe (exec s evs)"
proof (induction evs arbitrary: s)
  case Nil
  then show ?case by simp
next
  case (Cons ev evs)
  obtain e t where ev: "ev = (e, t)" by (cases ev)
  from Cons.prems(3) ev
  have kind: "e = LoopIteration \<or> (\<exists>f. e = AudioBlock f) \<or> (\<exists>k. e = KeyRelease k)" by simp
  let ?s1 = "fst (step s ev)"
  have one: "snd (step s ev) = [] \<and> \<not> is_recording ?s1 \<and> \<not> should_transcribe ?s1
             \<and> audio_frames ?s1 = audio_frames s"
    using kind Cons.prems(1,2)
    by (auto simp: ev run_iteration_def audio_callback_def on_release_def Let_def
          split: if_splits)
  have rest: "\<forall>(e, t) \<in> set evs. e = LoopIteration \<or> (\<exists>f. e = AudioBlock f) \<or> (\<exists>k. e = KeyRelease k)"
    using Cons.prems(3) by simp
  from Cons.IH [of ?s1] one rest show ?case by simp
qed

text \<open>
  After a manual stop from any recording state whose transcription flag is clear, no
  pass of the loop, audio block or key release that follows hands the buffer over.
\<close>

lemma manual_stop_never_transcribes:
  assumes "is_recording s" "\<not> should_transcribe s"
    and "\<forall>(e, t) \<in> set evs. e = LoopIteration \<or> (\<exists>f. e = AudioBlock f) \<or> (\<exists>k. e = KeyRelease k)"
  shows "effects (stop_recording_and_transcribe s) evs = []
         \<and> audio_frames (exec (stop_recording_and_transcribe s) evs) = audio_frames s"
proof -
  let ?s' = "stop_recording_and_transcribe s"
  have "\<not> is_recording ?s'" "\<not> should_transcribe ?s'" "audio_frames ?s' = audio_frames s"
    using assms(1,2) by (simp_all add: stop_recording_and_transcribe_def)
  with quiet_run_no_effects [of ?s' evs] assms(3) show ?thesis by simp
qed

text \<open>
  \<^bold>\<open>C1.\<close> The hotkey starts a recording, a block of speech is buffered, the control key is
  released and pressed again, which toggles a second time: the manual stop. The session
  stops recording, but the transcription flag stays clear, so the passes of the loop that
  follow never call \<open>transcribe_and_type\<close>: the only effects of the whole run are the
  two toggles, and the buffered block is never handed over.
\<close>

theorem manual_stop_drops_buffer:
  "effects (init ''ctrl+alt+0'' 500 1)
     [(KeyPress Key_ctrl_l, 0), (KeyPress Key_alt_l, 1), (KeyPress (KeyCode None (Some ''0'')), 2),
      (AudioBlock [1000, - 1000], 3), (KeyRelease Key_ctrl_l, 4), (KeyPress Key_ctrl_l, 5),
      (LoopIteration, 6), (AudioBlock [0, 0], 7), (LoopIteration, 8)]
     = [ToggleRecording, ToggleRecording]
   \<and> is_recording (exec (init ''ctrl+alt+0'' 500 1)
     [(KeyPress Key_ctrl_l, 0), (KeyPress Key_alt_l, 1), (KeyPress (KeyCode None (Some ''0'')), 2),
      (AudioBlock [1000, - 1000], 3), (KeyRelease Key_ctrl_l, 4)])
   \<and> audio_frames (exec (init ''ctrl+alt+0'' 500 1)
     [(KeyPress Key_ctrl_l, 0), (KeyPress Key_alt_l, 1), (KeyPress (KeyCode None (Some ''0'')), 2),
      (AudioBlock [1000, - 1000], 3), (KeyRelease Key_ctrl_l, 4)]) = [[1000, - 1000]]
   \<and> \<not> is_recording (exec (init ''ctrl+alt+0'' 500 1)
     [(KeyPress Key_ctrl_l, 0), (KeyPress Key_alt_l, 1), (KeyPress (KeyCode None (Some ''0'')), 2),
      (AudioBlock [1000, - 1000], 3), (KeyRelease Key_ctrl_l, 4), (KeyPress Key_ctrl_l, 5),
      (LoopIteration, 6), (AudioBlock [0, 0], 7), (LoopIteration, 8)])
   \<and> \<not> should_transcribe (exec (init ''ctrl+alt+0'' 500 1)
     [(KeyPress Key_ctrl_l, 0), (KeyPress Key_alt_l, 1), (KeyPress (KeyCode None (Some ''0'')), 2),
      (AudioBlock [1000, - 1000], 3), (KeyRelease Key_ctrl_l, 4), (KeyPress Key_ctrl_l, 5),
      (LoopIteration, 6), (AudioBlock [0, 0], 7), (LoopIteration, 8)])"
  by (simp add: eval_defs)

section \<open>From the transcript to the typed text\<close>

lemma trim_loop_Nil: "trim_loop [] = []"
  by (subst trim_loop.simps) simp

lemma trim_loop_snoc:
  "trim_loop (xs @ [x]) = (if x \<in> set ''.,;:'' then trim_loop xs else xs @ [x])"
  by (subst trim_loop.simps) simp

lemma trim_loop_rstrip_punct: "trim_loop text = rstrip_punct text"
proof (induction "text" rule: rev_induct)
  case Nil
  show ?case by (simp add: trim_loop_Nil rstrip_punct_def)
next
  case (snoc x xs)
  show ?case
  proof (cases "x \<in> set ''.,;:''")
    case True
    then have "trim_loop (xs @ [x]) = trim_loop xs" by (simp only: trim_loop_snoc if_True)
    moreover have "rstrip_punct (xs @ [x]) = rstrip_punct xs"
      using True by (simp add: rstrip_punct_def)
    ultimately show ?thesis using snoc.IH by simp
  next
    case False
    then have "trim_loop (xs @ [x]) = xs @ [x]" by (simp only: trim_loop_snoc if_False)
    moreover have "rstrip_punct (xs @ [x]) = xs @ [x]"
      using False by (simp add: rstrip_punct_def)
    ultimately show ?thesis by simp
  qed
qed

lemma strip_Nil: "strip [] = []"
  by (simp add: strip_def)

text \<open>
  \<^bold>\<open>C9\<close> (amended). The text handed to \<open>type_text\<close> is the transcript with white space
  stripped from both ends, then its trailing \<open>.,;:\<close> removed, then white space stripped
  again; nothing else is changed. \<open>type_text\<close> is called exactly when that text is not
  empty.
\<close>

theorem typed_text_is_trimmed_transcript:
  "typed_text transcript =
     (if strip (rstrip_punct (strip transcript)) = [] then None
      else Some (strip (rstrip_punct (strip transcript))))"
proof (cases "strip transcript = []")
  case True
  then show ?thesis by (simp add: typed_text_def rstrip_punct_def strip_Nil)
next
  case False
  then show ?thesis by (simp add: typed_text_def trim_loop_rstrip_punct)
qed

theorem typed_text_is_trimmed_transcript_witness:
  "typed_text [CHR 0x0A, CHR '' '', CHR ''H'', CHR ''i'', CHR '','', CHR '' '', CHR ''y'', CHR ''o'', CHR ''u'', CHR '' '', CHR ''.'', CHR '';'', CHR 0x0A] = Some ''Hi, you''
   \<and> typed_text '' ..;: '' = None"
  using typed_text_is_trimmed_transcript [of "[CHR 0x0A, CHR '' '', CHR ''H'', CHR ''i'', CHR '','', CHR '' '', CHR ''y'', CHR ''o'', CHR ''u'', CHR '' '', CHR ''.'', CHR '';'', CHR 0x0A]"]
    typed_text_is_trimmed_transcript [of "'' ..;: ''"]
  by (simp add: strip_def isspace_def rstrip_punct_def)

text \<open>
  The claim as stated fails: trailing-punctuation trimming alone leaves a transcript
  that ends in a blank as it is, whereas the typed text has lost the blank and the full
  stop before it.
\<close>

theorem typed_text_counterexample:
  "typed_text ''ok. '' = Some ''ok'' \<and> rstrip_punct ''ok. '' = ''ok. ''"
  by (simp add: typed_text_def strip_def isspace_def rstrip_punct_def trim_loop_rstrip_punct)

section \<open>The hotkey matcher\<close>

lemma hotkey_loop_step_valid:
  "valid_token part \<Longrightarrow>
     hotkey_loop hk pressed (part # rest) =
       (if token_holds pressed part then hotkey_loop hk pressed rest else (False, []))"
  by (auto simp: valid_token_def token_holds_def key_satisfies_def split: option.splits)

lemma hotkey_loop_step_invalid:
  "\<not> valid_token part \<Longrightarrow>
     hotkey_loop hk pressed (part # rest) = (False, [unknown_key_warning part hk])"
  by (auto simp: valid_token_def split: option.splits)

lemma hotkey_loop_valid:
  "\<forall>p \<in> set parts. valid_token p \<Longrightarrow>
     hotkey_loop hk pressed parts = ((\<forall>p \<in> set parts. token_holds pressed p), [])"
proof (induction parts)
  case Nil
  show ?case by simp
next
  case (Cons part parts)
  then have v: "valid_token part" and ih: "hotkey_loop hk pressed parts = ((\<forall>p \<in> set parts. token_holds pressed p), [])"
    by simp_all
  from hotkey_loop_step_valid [OF v, of hk pressed parts] ih
  show ?case by (simp del: hotkey_loop.simps)
qed

lemma hotkey_loop_first_invalid:
  "\<forall>p \<in> set pre. valid_token p \<Longrightarrow> \<not> valid_token bad \<Longrightarrow>
     hotkey_loop hk pressed (pre @ bad # post) =
       (False, if \<forall>p \<in> set pre. token_holds pressed p then [unknown_key_warning bad hk] else [])"
proof (induction pre)
  case Nil
  from hotkey_loop_step_invalid [OF Nil.prems(2), of hk pressed post]
  show ?case by (simp del: hotkey_loop.simps)
next
  case (Cons part pre)
  then have v: "valid_token part"
    and ih: "hotkey_loop hk pressed (pre @ bad # post) =
       (False, if \<forall>p \<in> set pre. token_holds pressed p then [unknown_key_warning bad hk] else [])"
    by simp_all
  from hotkey_loop_step_valid [OF v, of hk pressed "pre @ bad # post"] ih
  show ?case by (simp del: hotkey_loop.simps)
qed

lemma carries_char_iff: "carries_char part k = (\<exists>dead. k = KeyCode_char part dead)"
  by (cases k) auto

lemma some_dead_flag [simp]: "\<exists>dead. \<not> dead" "\<exists>dead. dead"
  by auto

lemma modifier_map_names: "modifier_map part = Some ks \<Longrightarrow> 2 \<le> length part"
  unfolding modifier_map_def by (auto split: if_splits)

lemma special_key_map_names: "special_key_map part = Some k \<Longrightarrow> 2 \<le> length part"
  unfolding special_key_map_def by (auto split: if_splits)

lemma single_char_not_named:
  "length part = 1 \<Longrightarrow> modifier_map part = None \<and> special_key_map part = None"
  using modifier_map_names [of part] special_key_map_names [of part]
  by (cases "modifier_map part"; cases "special_key_map part") auto


lemmas hotkey_eval = init_def is_hotkey_pressed_def parse_hotkey_def strip_def lower_def
  isspace_def modifier_map_def special_key_map_def valid_token_def key_satisfies_def
  token_holds_def

lemma is_hotkey_pressed_valid:
  "\<forall>p \<in> set (parse_hotkey s). valid_token p \<Longrightarrow>
     fst (is_hotkey_pressed s) = (\<forall>p \<in> set (parse_hotkey s). token_holds (pressed_keys s) p)"
  by (simp add: is_hotkey_pressed_def hotkey_loop_valid)

lemma parse_hotkey_pressed_keys [simp]:
  "parse_hotkey (s\<lparr>pressed_keys := ks\<rparr>) = parse_hotkey s"
  by (simp add: parse_hotkey_def)

text \<open>
  \<^bold>\<open>C5.\<close> When every token of the parsed hotkey is valid, the matcher returns true
  exactly when every token holds in the set of pressed keys: a modifier token by any of
  its side variants, a special-key token by that key, a single-character token by a key
  code carrying the character. Taking out of the pressed set what a token \<open>p\<close> of the
  hotkey requires makes the result false: every pressed key that satisfies \<open>p\<close>, or the
  one key \<open>k\<close> when no other pressed key satisfies \<open>p\<close>.
\<close>

theorem hotkey_matches_iff_all_tokens_hold:
  "(\<forall>p \<in> set (parse_hotkey s). valid_token p) \<longrightarrow>
     fst (is_hotkey_pressed s) = (\<forall>p \<in> set (parse_hotkey s). token_holds (pressed_keys s) p)
     \<and> (p \<in> set (parse_hotkey s)
        \<longrightarrow> \<not> fst (is_hotkey_pressed
                   (s\<lparr>pressed_keys := pressed_keys s - {k'. key_satisfies p k'}\<rparr>)))
     \<and> (fst (is_hotkey_pressed s) \<and> p \<in> set (parse_hotkey s)
          \<and> (\<forall>k' \<in> pressed_keys s. key_satisfies p k' \<longrightarrow> k' = k)
        \<longrightarrow> \<not> fst (is_hotkey_pressed (s\<lparr>pressed_keys := pressed_keys s - {k}\<rparr>)))"
proof (intro impI conjI)
  assume v: "\<forall>p \<in> set (parse_hotkey s). valid_token p"
  show "fst (is_hotkey_pressed s) = (\<forall>p \<in> set (parse_hotkey s). token_holds (pressed_keys s) p)"
    by (rule is_hotkey_pressed_valid [OF v])
  { assume a: "p \<in> set (parse_hotkey s)"
    let ?s' = "s\<lparr>pressed_keys := pressed_keys s - {k'. key_satisfies p k'}\<rparr>"
    have v': "\<forall>p \<in> set (parse_hotkey ?s'). valid_token p" using v by simp
    have "\<not> token_holds (pressed_keys s - {k'. key_satisfies p k'}) p"
      by (auto simp: token_holds_def)
    then have "\<not> (\<forall>p \<in> set (parse_hotkey ?s'). token_holds (pressed_keys ?s') p)"
      using a by auto
    then show "\<not> fst (is_hotkey_pressed ?s')"
      using is_hotkey_pressed_valid [OF v'] by simp }
  { assume a: "fst (is_hotkey_pressed s) \<and> p \<in> set (parse_hotkey s)
          \<and> (\<forall>k' \<in> pressed_keys s. key_satisfies p k' \<longrightarrow> k' = k)"
    let ?s' = "s\<lparr>pressed_keys := pressed_keys s - {k}\<rparr>"
    have v': "\<forall>p \<in> set (parse_hotkey ?s'). valid_token p" using v by simp
    have "\<not> token_holds (pressed_keys s - {k}) p"
      using a by (auto simp: token_holds_def)
    then have "\<not> (\<forall>p \<in> set (parse_hotkey ?s'). token_holds (pressed_keys ?s') p)"
      using a by auto
    then show "\<not> fst (is_hotkey_pressed ?s')"
      using is_hotkey_pressed_valid [OF v'] by simp }
qed

theorem hotkey_matches_iff_all_tokens_hold_witness:
  "parse_hotkey ((init ''Ctrl+Alt+0'' 500 1)
       \<lparr>pressed_keys := {Key_ctrl_l, Key_ctrl_r, Key_alt_r, KeyCode (Some 48) (Some ''0'')}\<rparr>)
     = [''ctrl'', ''alt'', ''0'']
   \<and> valid_token ''ctrl'' \<and> valid_token ''alt'' \<and> valid_token ''0''
   \<and> fst (is_hotkey_pressed ((init ''Ctrl+Alt+0'' 500 1)
       \<lparr>pressed_keys := {Key_ctrl_l, Key_ctrl_r, Key_alt_r, KeyCode (Some 48) (Some ''0'')}\<rparr>))
   \<and> token_holds {Key_ctrl_l, Key_ctrl_r, Key_alt_r, KeyCode (Some 48) (Some ''0'')} ''alt''
   \<and> \<not> fst (is_hotkey_pressed ((init ''Ctrl+Alt+0'' 500 1)
       \<lparr>pressed_keys := {Key_ctrl_l, Key_ctrl_r, Key_alt_r, KeyCode (Some 48) (Some ''0'')}
                          - {k'. key_satisfies ''ctrl'' k'}\<rparr>))
   \<and> \<not> fst (is_hotkey_pressed ((init ''Ctrl+Alt+0'' 500 1)
       \<lparr>pressed_keys := {Key_ctrl_l, Key_ctrl_r, Key_alt_r, KeyCode (Some 48) (Some ''0'')}
                          - {Key_alt_r}\<rparr>))"
proof -
  let ?keys = "{Key_ctrl_l, Key_ctrl_r, Key_alt_r, KeyCode (Some 48) (Some ''0'')}"
  let ?s = "(init ''Ctrl+Alt+0'' 500 1)\<lparr>pressed_keys := ?keys\<rparr>"
  have p: "parse_hotkey ?s = [''ctrl'', ''alt'', ''0'']" by (simp add: hotkey_eval)
  have v: "valid_token ''ctrl''" "valid_token ''alt''" "valid_token ''0''"
    by (simp_all add: hotkey_eval)
  have vs: "\<forall>p \<in> set (parse_hotkey ?s). valid_token p" using p v by simp
  have h: "token_holds (pressed_keys ?s) ''ctrl''" "token_holds (pressed_keys ?s) ''alt''"
    "token_holds (pressed_keys ?s) ''0''"
    by (simp_all add: hotkey_eval)
  have only: "\<forall>k' \<in> pressed_keys ?s. key_satisfies ''alt'' k' \<longrightarrow> k' = Key_alt_r"
    by (simp add: hotkey_eval)
  note th_alt = hotkey_matches_iff_all_tokens_hold [of ?s "''alt''" Key_alt_r, THEN mp, OF vs]
  note th_ctrl = hotkey_matches_iff_all_tokens_hold [of ?s "''ctrl''" Key_ctrl_l, THEN mp, OF vs]
  have m: "fst (is_hotkey_pressed ?s)" using th_alt p h by simp
  have in_alt: "''alt'' \<in> set (parse_hotkey ?s)" and in_ctrl: "''ctrl'' \<in> set (parse_hotkey ?s)"
    using p by simp_all
  from th_ctrl in_ctrl
  have "\<not> fst (is_hotkey_pressed
                (?s\<lparr>pressed_keys := pressed_keys ?s - {k'. key_satisfies ''ctrl'' k'}\<rparr>))"
    by blast
  then have r1: "\<not> fst (is_hotkey_pressed ((init ''Ctrl+Alt+0'' 500 1)
       \<lparr>pressed_keys := ?keys - {k'. key_satisfies ''ctrl'' k'}\<rparr>))"
    by (simp add: init_def)
  from th_alt m in_alt only
  have "\<not> fst (is_hotkey_pressed (?s\<lparr>pressed_keys := pressed_keys ?s - {Key_alt_r}\<rparr>))"
    by blast
  then have r2: "\<not> fst (is_hotkey_pressed ((init ''Ctrl+Alt+0'' 500 1)
       \<lparr>pressed_keys := ?keys - {Key_alt_r}\<rparr>))"
    by (simp add: init_def)
  from p v m h(2) r1 r2 show ?thesis by simp
qed

text \<open>
  \<^bold>\<open>C7\<close> (amended). A hotkey with a token that is neither a modifier name, a special-key
  name nor a single character never matches, whatever keys are pressed, and the matcher
  returns normally. The warning is printed only when the loop reaches that token: when
  every token before the first invalid one holds in the set of pressed keys. Otherwise
  the matcher returns false at the earlier token and prints nothing.
\<close>

theorem unknown_token_fails_closed:
  "(parse_hotkey s = pre @ bad # post \<and> (\<forall>p \<in> set pre. valid_token p) \<and> \<not> valid_token bad \<longrightarrow>
      is_hotkey_pressed s =
        (False, if \<forall>p \<in> set pre. token_holds (pressed_keys s) p
                then [unknown_key_warning bad (hotkey_str s)] else []))
   \<and> ((\<exists>p \<in> set (parse_hotkey s). \<not> valid_token p) \<longrightarrow> \<not> fst (is_hotkey_pressed s))"
proof (intro conjI impI)
  assume "parse_hotkey s = pre @ bad # post \<and> (\<forall>p \<in> set pre. valid_token p) \<and> \<not> valid_token bad"
  then show "is_hotkey_pressed s =
        (False, if \<forall>p \<in> set pre. token_holds (pressed_keys s) p
                then [unknown_key_warning bad (hotkey_str s)] else [])"
    by (simp add: is_hotkey_pressed_def hotkey_loop_first_invalid del: hotkey_loop.simps)
next
  assume "\<exists>p \<in> set (parse_hotkey s). \<not> valid_token p"
  then obtain ys x zs where d: "parse_hotkey s = ys @ x # zs" "\<not> valid_token x"
    "\<forall>y \<in> set ys. \<not> \<not> valid_token y"
    using split_list_first_prop [of "parse_hotkey s" "\<lambda>p. \<not> valid_token p"] by blast
  then have "\<forall>y \<in> set ys. valid_token y" by simp
  from hotkey_loop_first_invalid [OF this d(2), of "hotkey_str s" "pressed_keys s" zs]
  show "\<not> fst (is_hotkey_pressed s)"
    by (simp add: is_hotkey_pressed_def d(1) del: hotkey_loop.simps)
qed

theorem unknown_token_fails_closed_witness:
  "parse_hotkey ((init ''ctrl+foo'' 500 1)\<lparr>pressed_keys := {Key_ctrl_r}\<rparr>) = [''ctrl''] @ ''foo'' # []
   \<and> valid_token ''ctrl'' \<and> \<not> valid_token ''foo''
   \<and> token_holds {Key_ctrl_r} ''ctrl''
   \<and> is_hotkey_pressed ((init ''ctrl+foo'' 500 1)\<lparr>pressed_keys := {Key_ctrl_r}\<rparr>)
       = (False, [unknown_key_warning ''foo'' ''ctrl+foo''])"
proof -
  let ?s = "(init ''ctrl+foo'' 500 1)\<lparr>pressed_keys := {Key_ctrl_r}\<rparr>"
  have p: "parse_hotkey ?s = [''ctrl''] @ ''foo'' # []" by (simp add: hotkey_eval)
  have v: "valid_token ''ctrl''" "\<not> valid_token ''foo''" by (simp_all add: hotkey_eval)
  have h: "token_holds {Key_ctrl_r} ''ctrl''" by (simp add: hotkey_eval)
  have "is_hotkey_pressed ?s =
        (False, if \<forall>p \<in> set [''ctrl'']. token_holds (pressed_keys ?s) p
                then [unknown_key_warning ''foo'' (hotkey_str ?s)] else [])"
    using unknown_token_fails_closed [of ?s "[''ctrl'']" "''foo''" "[]"] p v by simp
  then have "is_hotkey_pressed ?s = (False, [unknown_key_warning ''foo'' ''ctrl+foo''])"
    using h by (simp add: init_def)
  with p v h show ?thesis by simp
qed

text \<open>
  The claim as stated fails on the warning: with the hotkey \<open>ctrl+foo\<close> and no key
  pressed the matcher returns false at \<open>ctrl\<close> and surfaces no warning.
\<close>

theorem unknown_token_counterexample:
  "parse_hotkey (init ''ctrl+foo'' 500 1) = [''ctrl'', ''foo'']
   \<and> \<not> valid_token ''foo''
   \<and> is_hotkey_pressed (init ''ctrl+foo'' 500 1) = (False, [])"
  by (simp add: hotkey_eval)

lemma split_plus_single: "c \<noteq> CHR ''+'' \<Longrightarrow> split_plus [c] = [[c]]"
  by simp

lemma strip_single: "\<not> isspace c \<Longrightarrow> strip [c] = [c]"
  by (simp add: strip_def)

lemma hotkey_loop_single_char:
  "length part = 1 \<Longrightarrow>
     fst (hotkey_loop hk pressed [part]) = (\<exists>k \<in> pressed. \<exists>dead. k = KeyCode_char part dead)"
  using single_char_not_named [of part] by (auto simp: carries_char_iff)

text \<open>
  \<^bold>\<open>C6\<close> (amended). A single-character token is satisfied exactly when some pressed key
  is a key code whose character equals the token. The token is the configured
  character in lower case, so the case of the configured character does not matter;
  the character of the pressed key is compared as it is reported.
\<close>

theorem single_char_token_exact_match:
  "(length part = 1 \<longrightarrow>
      fst (hotkey_loop hk pressed [part]) = (\<exists>k \<in> pressed. \<exists>dead. k = KeyCode_char part dead))
   \<and> (hotkey_str s = [c] \<and> c \<noteq> CHR ''+'' \<and> \<not> isspace c \<longrightarrow>
        parse_hotkey s = [[lower_char c]]
        \<and> fst (is_hotkey_pressed s)
            = (\<exists>k \<in> pressed_keys s. \<exists>dead. k = KeyCode_char [lower_char c] dead))"
proof (intro conjI impI)
  assume "length part = 1"
  then show "fst (hotkey_loop hk pressed [part]) = (\<exists>k \<in> pressed. \<exists>dead. k = KeyCode_char part dead)"
    by (rule hotkey_loop_single_char)
next
  assume a: "hotkey_str s = [c] \<and> c \<noteq> CHR ''+'' \<and> \<not> isspace c"
  then show p: "parse_hotkey s = [[lower_char c]]"
    by (simp add: parse_hotkey_def strip_single lower_def)
  show "fst (is_hotkey_pressed s)
            = (\<exists>k \<in> pressed_keys s. \<exists>dead. k = KeyCode_char [lower_char c] dead)"
    unfolding is_hotkey_pressed_def p by (rule hotkey_loop_single_char) simp
qed

theorem single_char_token_exact_match_witness:
  "length ''0'' = 1
   \<and> fst (hotkey_loop ''ctrl+alt+0'' {Key_ctrl_l, KeyCode (Some 96) (Some ''0'')} [''0''])
   \<and> \<not> isspace CHR ''A'' \<and> lower_char CHR ''A'' = CHR ''a''
   \<and> parse_hotkey ((init ''A'' 500 1)\<lparr>pressed_keys := {KeyCode (Some 65) (Some ''a'')}\<rparr>) = [''a'']
   \<and> fst (is_hotkey_pressed ((init ''A'' 500 1)\<lparr>pressed_keys := {KeyCode (Some 65) (Some ''a'')}\<rparr>))"
proof -
  let ?s = "(init ''A'' 500 1)\<lparr>pressed_keys := {KeyCode (Some 65) (Some ''a'')}\<rparr>"
  note th = single_char_token_exact_match
    [of "''0''" "''ctrl+alt+0''" "{Key_ctrl_l, KeyCode (Some 96) (Some ''0'')}" ?s "CHR ''A''"]
  have l: "length ''0'' = 1" by simp
  have c: "hotkey_str ?s = [CHR ''A'']" "CHR ''A'' \<noteq> CHR ''+''" "\<not> isspace CHR ''A''"
    "lower_char CHR ''A'' = CHR ''a''"
    by (simp_all add: init_def isspace_def)
  from th l have a: "fst (hotkey_loop ''ctrl+alt+0'' {Key_ctrl_l, KeyCode (Some 96) (Some ''0'')} [''0''])"
    by (simp del: hotkey_loop.simps)
  from th c have b: "parse_hotkey ?s = [''a'']"
    "fst (is_hotkey_pressed ?s)" by (simp_all del: hotkey_loop.simps)
  from l a c b show ?thesis by simp
qed

text \<open>
  The claim as stated fails: a pressed key that reports the capital letter does not
  satisfy the configured small letter, although the two are equal up to case.
\<close>

theorem single_char_token_counterexample:
  "lower ''A'' = lower ''a''
   \<and> \<not> fst (is_hotkey_pressed ((init ''a'' 500 1)\<lparr>pressed_keys := {KeyCode (Some 65) (Some ''A'')}\<rparr>))"
  by (simp add: hotkey_eval)

section \<open>The toggle edge\<close>

lemma hotkey_pressed_toggle [simp]:
  "hotkey_pressed (toggle_recording s now) = hotkey_pressed s"
  by (simp add: toggle_recording_def start_recording_def stop_recording_and_transcribe_def)

lemma on_press_fires:
  "snd (on_press s k now) =
     (fst (is_hotkey_pressed (s\<lparr>pressed_keys := insert k (pressed_keys s)\<rparr>))
      \<and> \<not> hotkey_pressed s)"
  by (simp add: on_press_def Let_def)

lemma on_press_armed:
  "hotkey_pressed (fst (on_press s k now)) = (hotkey_pressed s \<or> snd (on_press s k now))"
  by (simp add: on_press_def Let_def)

lemma step_KeyPress:
  "step s (KeyPress k, t) =
     (fst (on_press s k t), if snd (on_press s k t) then [ToggleRecording] else [])"
  by (simp split: prod.splits)

lemma step_fires_armed:
  "ToggleRecording \<in> set (snd (step s e)) \<Longrightarrow> hotkey_pressed (fst (step s e))"
proof (cases e)
  case (Pair ev t)
  assume f: "ToggleRecording \<in> set (snd (step s e))"
  show ?thesis
  proof (cases ev)
    case (KeyPress k)
    with f Pair have "snd (on_press s k t)"
      by (simp add: step_KeyPress del: step.simps split: if_splits)
    then show ?thesis using on_press_armed [of s k t] KeyPress Pair
      by (simp add: step_KeyPress del: step.simps)
  next
    case (KeyRelease k)
    with f Pair show ?thesis by simp
  next
    case (AudioBlock b)
    with f Pair show ?thesis by simp
  next
    case LoopIteration
    with f Pair show ?thesis by (simp split: prod.splits option.splits)
  qed
qed

lemma step_armed_no_fire:
  "hotkey_pressed s \<Longrightarrow> ToggleRecording \<notin> set (snd (step s e))"
proof (cases e)
  case (Pair ev t)
  assume a: "hotkey_pressed s"
  show ?thesis
  proof (cases ev)
    case (KeyPress k)
    have "\<not> snd (on_press s k t)" using a by (simp add: on_press_fires)
    then show ?thesis using KeyPress Pair by (simp add: step_KeyPress del: step.simps)
  next
    case (KeyRelease k)
    with Pair show ?thesis by simp
  next
    case (AudioBlock b)
    with Pair show ?thesis by simp
  next
    case LoopIteration
    with Pair show ?thesis by (simp split: prod.splits option.splits)
  qed
qed

lemma step_disarm:
  "hotkey_pressed s \<Longrightarrow> \<not> hotkey_pressed (fst (step s (e, t))) \<Longrightarrow>
     e = KeyRelease Key_ctrl_l \<or> e = KeyRelease Key_ctrl_r"
proof (cases e)
  case (KeyPress k)
  assume "hotkey_pressed s" "\<not> hotkey_pressed (fst (step s (e, t)))"
  then show ?thesis using on_press_armed [of s k t] KeyPress
    by (simp add: step_KeyPress del: step.simps)
next
  case (KeyRelease k)
  assume "hotkey_pressed s" "\<not> hotkey_pressed (fst (step s (e, t)))"
  then show ?thesis using KeyRelease by (simp add: on_release_def Let_def split: if_splits)
next
  case (AudioBlock b)
  assume "hotkey_pressed s" "\<not> hotkey_pressed (fst (step s (e, t)))"
  then show ?thesis using AudioBlock by (simp add: audio_callback_def Let_def split: if_splits)
next
  case LoopIteration
  assume "hotkey_pressed s" "\<not> hotkey_pressed (fst (step s (e, t)))"
  then show ?thesis using LoopIteration
    by (simp add: run_iteration_def Let_def split: if_splits prod.splits option.splits)
qed

lemma exec_append: "exec s (xs @ ys) = exec (exec s xs) ys"
  by (induction xs arbitrary: s) auto

lemma exec_stays_armed:
  "hotkey_pressed s \<Longrightarrow>
   \<not> (\<exists>(e, t) \<in> set evs. e = KeyRelease Key_ctrl_l \<or> e = KeyRelease Key_ctrl_r) \<Longrightarrow>
     hotkey_pressed (exec s evs)"
proof (induction evs arbitrary: s)
  case Nil
  then show ?case by simp
next
  case (Cons ev evs)
  obtain e t where ev: "ev = (e, t)" by (cases ev)
  have "e \<noteq> KeyRelease Key_ctrl_l \<and> e \<noteq> KeyRelease Key_ctrl_r"
    using Cons.prems(2) ev by auto
  then have "hotkey_pressed (fst (step s (e, t)))"
    using step_disarm [of s e t] Cons.prems(1) by blast
  moreover have "\<not> (\<exists>(e, t) \<in> set evs. e = KeyRelease Key_ctrl_l \<or> e = KeyRelease Key_ctrl_r)"
    using Cons.prems(2) by auto
  ultimately show ?case using Cons.IH [of "fst (step s (e, t))"] ev by simp
qed

lemma on_release_disarms:
  "\<not> hotkey_pressed (on_release s Key_ctrl_l) \<and> \<not> hotkey_pressed (on_release s Key_ctrl_r)"
  by (simp add: on_release_def Let_def)

lemma on_release_keys: "pressed_keys (on_release s k) = pressed_keys s - {k}"
  by (simp add: on_release_def Let_def)

lemma on_press_keys: "pressed_keys (fst (on_press s k now)) = insert k (pressed_keys s)"
  by (simp add: on_press_def Let_def toggle_recording_def start_recording_def
        stop_recording_and_transcribe_def)

text \<open>
  The key codes of the top-row and of the numeric-pad digit are one element of the set
  of pressed keys: with both digits down, the release of one of them leaves no digit in
  the set, and the control key pressed again does not toggle a second time.
\<close>

lemma same_character_key_codes:
  "effects (init ''ctrl+alt+0'' 500 1)
     [(KeyPress Key_ctrl_l, 0), (KeyPress Key_alt_l, 1),
      (KeyPress (KeyCode (Some 48) (Some ''0'')), 2),
      (KeyPress (KeyCode (Some 96) (Some ''0'')), 3),
      (KeyRelease Key_ctrl_l, 4), (KeyRelease (KeyCode (Some 96) (Some ''0'')), 5),
      (KeyPress Key_ctrl_l, 6)]
   = [ToggleRecording]"
  by (simp add: eval_defs insert_Diff_if)

text \<open>
  \<^bold>\<open>C2.\<close> A key press calls \<open>toggle_recording\<close> exactly once when the hotkey matches
  the pressed keys (the new key included) and the edge is not armed, and not at all
  otherwise; a press that toggles leaves the edge armed. A key release never calls it.
  Between two events of a run that both toggle there is a release of \<open>ctrl_l\<close> or
  \<open>ctrl_r\<close>. The release of \<open>ctrl_l\<close> and the release of \<open>ctrl_r\<close> each disarm the
  edge, and an armed edge is disarmed by no other event of any of the three sources. A
  press adds its key to the set of pressed keys and a release takes its key out.
\<close>

theorem toggle_edge_fires_once:
  "snd (step s (KeyPress k, now)) =
     (if fst (is_hotkey_pressed (s\<lparr>pressed_keys := insert k (pressed_keys s)\<rparr>))
         \<and> \<not> hotkey_pressed s
      then [ToggleRecording] else [])
   \<and> snd (step s (KeyRelease k, now)) = []
   \<and> (ToggleRecording \<in> set (snd (step (exec s pre) e1))
        \<and> ToggleRecording \<in> set (snd (step (exec s (pre @ e1 # mid)) e2))
      \<longrightarrow> (\<exists>(e, t) \<in> set mid. e = KeyRelease Key_ctrl_l \<or> e = KeyRelease Key_ctrl_r))
   \<and> (hotkey_pressed s \<longrightarrow>
        (\<not> hotkey_pressed (fst (step s (e, t)))) = (e = KeyRelease Key_ctrl_l \<or> e = KeyRelease Key_ctrl_r))
   \<and> \<not> hotkey_pressed (fst (step s (KeyRelease Key_ctrl_l, now)))
   \<and> \<not> hotkey_pressed (fst (step s (KeyRelease Key_ctrl_r, now)))
   \<and> (ToggleRecording \<in> set (snd (step s (e, t))) \<longrightarrow> hotkey_pressed (fst (step s (e, t))))
   \<and> pressed_keys (fst (step s (KeyPress k, now))) = insert k (pressed_keys s)
   \<and> pressed_keys (fst (step s (KeyRelease k, now))) = pressed_keys s - {k}"
proof (intro conjI impI)
  show "snd (step s (KeyPress k, now)) =
     (if fst (is_hotkey_pressed (s\<lparr>pressed_keys := insert k (pressed_keys s)\<rparr>))
         \<and> \<not> hotkey_pressed s
      then [ToggleRecording] else [])"
    using on_press_fires [of s k now] by (simp add: step_KeyPress del: step.simps)
next
  show "snd (step s (KeyRelease k, now)) = []" by simp
next
  assume f: "ToggleRecording \<in> set (snd (step (exec s pre) e1))
        \<and> ToggleRecording \<in> set (snd (step (exec s (pre @ e1 # mid)) e2))"
  let ?s1 = "fst (step (exec s pre) e1)"
  have armed: "hotkey_pressed ?s1" using f by (simp add: step_fires_armed)
  have ex: "exec s (pre @ e1 # mid) = exec ?s1 mid" by (simp add: exec_append)
  show "\<exists>(e, t) \<in> set mid. e = KeyRelease Key_ctrl_l \<or> e = KeyRelease Key_ctrl_r"
  proof (rule ccontr)
    assume "\<not> (\<exists>(e, t) \<in> set mid. e = KeyRelease Key_ctrl_l \<or> e = KeyRelease Key_ctrl_r)"
    then have "hotkey_pressed (exec ?s1 mid)" by (rule exec_stays_armed [OF armed])
    then have "ToggleRecording \<notin> set (snd (step (exec s (pre @ e1 # mid)) e2))"
      unfolding ex by (rule step_armed_no_fire)
    with f show False by simp
  qed
next
  assume a: "hotkey_pressed s"
  show "(\<not> hotkey_pressed (fst (step s (e, t))))
          = (e = KeyRelease Key_ctrl_l \<or> e = KeyRelease Key_ctrl_r)"
  proof
    assume "\<not> hotkey_pressed (fst (step s (e, t)))"
    with a show "e = KeyRelease Key_ctrl_l \<or> e = KeyRelease Key_ctrl_r"
      using step_disarm [of s e t] by blast
  next
    assume "e = KeyRelease Key_ctrl_l \<or> e = KeyRelease Key_ctrl_r"
    then show "\<not> hotkey_pressed (fst (step s (e, t)))"
      using on_release_disarms [of s] by auto
  qed
next
  show "\<not> hotkey_pressed (fst (step s (KeyRelease Key_ctrl_l, now)))"
    using on_release_disarms [of s] by simp
next
  show "\<not> hotkey_pressed (fst (step s (KeyRelease Key_ctrl_r, now)))"
    using on_release_disarms [of s] by simp
next
  assume "ToggleRecording \<in> set (snd (step s (e, t)))"
  then show "hotkey_pressed (fst (step s (e, t)))" by (rule step_fires_armed)
next
  show "pressed_keys (fst (step s (KeyPress k, now))) = insert k (pressed_keys s)"
    by (simp add: step_KeyPress on_press_keys del: step.simps)
next
  show "pressed_keys (fst (step s (KeyRelease k, now))) = pressed_keys s - {k}"
    by (simp add: on_release_keys)
qed

theorem toggle_edge_fires_once_witness:
  "snd (step (init ''ctrl+alt+0'' 500 1) (KeyRelease Key_ctrl_l, 0)) = []
   \<and> ToggleRecording \<in> set (snd (step
        (exec (init ''ctrl+alt+0'' 500 1) [(KeyPress Key_ctrl_r, 0), (KeyPress Key_alt_l, 1)])
        (KeyPress (KeyCode (Some 48) (Some ''0'')), 2)))
   \<and> ToggleRecording \<in> set (snd (step
        (exec (init ''ctrl+alt+0'' 500 1)
           ([(KeyPress Key_ctrl_r, 0), (KeyPress Key_alt_l, 1)]
            @ (KeyPress (KeyCode (Some 48) (Some ''0'')), 2)
            # [(KeyPress (KeyCode (Some 48) (Some ''0'')), 3), (KeyRelease Key_ctrl_r, 4),
               (KeyRelease (KeyCode (Some 48) (Some ''0'')), 5), (KeyPress Key_ctrl_l, 6)]))
        (KeyPress (KeyCode (Some 48) (Some ''0'')), 7)))
   \<and> (\<exists>(e, t) \<in> set [(KeyPress (KeyCode (Some 48) (Some ''0'')), 3 :: real), (KeyRelease Key_ctrl_r, 4),
               (KeyRelease (KeyCode (Some 48) (Some ''0'')), 5), (KeyPress Key_ctrl_l, 6)].
          e = KeyRelease Key_ctrl_l \<or> e = KeyRelease Key_ctrl_r)
   \<and> hotkey_pressed (exec (init ''ctrl+alt+0'' 500 1)
        [(KeyPress Key_ctrl_r, 0), (KeyPress Key_alt_l, 1),
         (KeyPress (KeyCode (Some 48) (Some ''0'')), 2)])
   \<and> \<not> hotkey_pressed (fst (step (exec (init ''ctrl+alt+0'' 500 1)
        [(KeyPress Key_ctrl_r, 0), (KeyPress Key_alt_l, 1),
         (KeyPress (KeyCode (Some 48) (Some ''0'')), 2)]) (KeyRelease Key_ctrl_r, 4)))
   \<and> \<not> hotkey_pressed (fst (step (exec (init ''ctrl+alt+0'' 500 1)
        [(KeyPress Key_ctrl_r, 0), (KeyPress Key_alt_l, 1),
         (KeyPress (KeyCode (Some 48) (Some ''0'')), 2)]) (KeyRelease Key_ctrl_l, 4)))
   \<and> effects (init ''ctrl+alt+0'' 500 1)
        [(KeyPress Key_ctrl_r, 0), (KeyPress Key_alt_l, 1),
         (KeyPress (KeyCode (Some 48) (Some ''0'')), 2),
         (KeyPress (KeyCode (Some 48) (Some ''0'')), 3), (KeyRelease Key_ctrl_r, 4),
         (KeyRelease (KeyCode (Some 48) (Some ''0'')), 5), (KeyPress Key_ctrl_l, 6),
         (KeyPress (KeyCode (Some 48) (Some ''0'')), 7)]
       = [ToggleRecording, ToggleRecording]"
proof -
  let ?S = "init ''ctrl+alt+0'' 500 1"
  let ?zero = "KeyCode (Some 48) (Some ''0'')"
  let ?pre = "[(KeyPress Key_ctrl_r, 0 :: real), (KeyPress Key_alt_l, 1)]"
  let ?mid = "[(KeyPress ?zero, 3 :: real), (KeyRelease Key_ctrl_r, 4),
               (KeyRelease ?zero, 5), (KeyPress Key_ctrl_l, 6)]"
  let ?armed = "exec ?S [(KeyPress Key_ctrl_r, 0), (KeyPress Key_alt_l, 1), (KeyPress ?zero, 2)]"
  note th = toggle_edge_fires_once
    [of ?S Key_ctrl_l 0 ?pre "(KeyPress ?zero, 2)" ?mid "(KeyPress ?zero, 7)"]
  note th_r = toggle_edge_fires_once [of ?armed _ 4 _ _ _ _ "KeyRelease Key_ctrl_r" 4]
  note th_l = toggle_edge_fires_once [of ?armed _ 4 _ _ _ _ "KeyRelease Key_ctrl_l" 4]
  have f1: "ToggleRecording \<in> set (snd (step (exec ?S ?pre) (KeyPress ?zero, 2)))"
    by (simp add: eval_defs insert_Diff_if)
  have f2: "ToggleRecording \<in> set (snd (step (exec ?S (?pre @ (KeyPress ?zero, 2) # ?mid))
              (KeyPress ?zero, 7)))"
    by (simp add: eval_defs insert_Diff_if)
  have armed: "hotkey_pressed ?armed" by (simp add: eval_defs insert_Diff_if)
  from th have r: "snd (step ?S (KeyRelease Key_ctrl_l, 0)) = []" by blast
  from th f1 f2
  have ex: "\<exists>(e, t) \<in> set ?mid. e = KeyRelease Key_ctrl_l \<or> e = KeyRelease Key_ctrl_r"
    by blast
  from th_r armed have dr: "\<not> hotkey_pressed (fst (step ?armed (KeyRelease Key_ctrl_r, 4)))"
    by blast
  from th_l armed have dl: "\<not> hotkey_pressed (fst (step ?armed (KeyRelease Key_ctrl_l, 4)))"
    by blast
  have all: "effects ?S [(KeyPress Key_ctrl_r, 0), (KeyPress Key_alt_l, 1),
         (KeyPress ?zero, 2), (KeyPress ?zero, 3), (KeyRelease Key_ctrl_r, 4),
         (KeyRelease ?zero, 5), (KeyPress Key_ctrl_l, 6), (KeyPress ?zero, 7)]
       = [ToggleRecording, ToggleRecording]"
    by (simp add: eval_defs insert_Diff_if)
  from r f1 f2 ex armed dr dl all show ?thesis by (intro conjI)
qed

end
